theory Spec2Isabelle
  imports Main "HOL-Library.Word" "HOL-Library.Signed_Division"
begin

section \<open>Data model of hashtable\_chaining.c\<close>

text \<open>
  Entry nodes live in a heap, a partial map from addresses to nodes: \<open>calloc\<close> adds an
  address, \<open>free\<close> removes it, and reading through an address that is not allocated is a
  fault. A pointer is an optional address, \<open>None\<close> being \<open>NULL\<close>. A key is the sequence
  of characters before the terminating NUL, so \<open>strcmp(a, b) == 0\<close> is equality of the
  two sequences and \<open>strlen\<close> is \<open>length\<close>.
\<close>

type_synonym addr = nat
type_synonym ptr = "addr option"

record entry =
  p_next :: "addr option"
  p_key :: string
  p_data :: ptr

text \<open>
  \<open>struct hashtable\<close>. The bucket array \<open>pp_entries\<close> is itself the result of a
  \<open>calloc\<close>, so it may be \<open>NULL\<close>; \<open>size\<close> and \<open>capacity\<close> are \<open>uint64_t\<close>; the mutex
  is the flag \<open>lock\<close> (held or free).
\<close>

record hashtable =
  pp_entries :: "addr option list option"
  size_ht :: "64 word"
  capacity :: "64 word"
  lock :: bool

text \<open>
  The world an operation runs in: the object \<open>p_hashtable\<close> points to (\<open>None\<close> when the
  pointer is \<open>NULL\<close>), the heap of entry nodes, the lines written to \<open>stderr\<close>, and the
  caller's own state \<open>user\<close>, which only the callbacks act on.
\<close>

record 'u world =
  ht :: "hashtable option"
  heap :: "addr \<rightharpoonup> entry"
  stderr :: "string list"
  user :: 'u

text \<open>
  What C leaves undefined is a fault of the model. A run is \<open>None\<close> when a loop does not
  end, \<open>Some (Inl f)\<close> when it faults and \<open>Some (Inr r)\<close> when it returns \<open>r\<close>.
\<close>

datatype fault = Null_Deref | Dangling_Read | Out_Of_Bounds | Null_Call | Deadlock

type_synonym 'a run = "(fault + 'a) option"

text \<open>The callback types \<open>p_comp\<close> and \<open>p_del\<close>: \<open>NULL\<close> or a procedure on the caller's state.\<close>

type_synonym 'u p_comp = "(ptr \<Rightarrow> 'u \<Rightarrow> ptr \<times> 'u) option"
type_synonym 'u p_del = "(ptr \<Rightarrow> 'u \<Rightarrow> 'u) option"


section \<open>The hash function\<close>

definition choice :: int where
  "choice = 97"

definition large :: int where
  "large = 1000000009"

text \<open>A \<open>char\<close> promoted to \<open>int\<close>; \<open>char\<close> is signed, as on x86-64.\<close>

definition char_to_int :: "char \<Rightarrow> int" where
  "char_to_int c = (let n = of_char c in if n < 128 then n else n - 256)"

text \<open>
  The \<open>for\<close> loop of \<open>hash_key\<close> over the bytes of the key. \<open>%\<close> truncates towards
  zero, which is \<open>smod\<close>. The values stay far inside \<open>long long\<close> (lemma
  \<open>hash_loop_no_overflow\<close> below), so they are integers here.
\<close>

fun hash_loop :: "string \<Rightarrow> int \<Rightarrow> int \<Rightarrow> int" where
  "hash_loop [] hash pwr = hash"
| "hash_loop (c # cs) hash pwr =
     hash_loop cs ((hash + (char_to_int c - char_to_int CHR ''a'' + 1) * pwr) smod large)
                  ((pwr * choice) smod large)"

text \<open>
  The same loop, checking that every intermediate value of the two assignments is a
  \<open>long long\<close>, so that no signed overflow occurs in the source.
\<close>

definition fits_long_long :: "int \<Rightarrow> bool" where
  "fits_long_long x = (- (2 ^ 63) \<le> x \<and> x < 2 ^ 63)"

fun hash_loop_fits :: "string \<Rightarrow> int \<Rightarrow> int \<Rightarrow> bool" where
  "hash_loop_fits [] hash pwr = True"
| "hash_loop_fits (c # cs) hash pwr =
     (fits_long_long ((char_to_int c - char_to_int CHR ''a'' + 1) * pwr) \<and>
      fits_long_long (hash + (char_to_int c - char_to_int CHR ''a'' + 1) * pwr) \<and>
      fits_long_long (pwr * choice) \<and>
      hash_loop_fits cs ((hash + (char_to_int c - char_to_int CHR ''a'' + 1) * pwr) smod large)
                        ((pwr * choice) smod large))"

text \<open>
  \<open>hash %= ht_capacity\<close> mixes \<open>long long\<close> with \<open>uint64_t\<close>: the accumulator is
  converted to unsigned 64 bits, reduced, and the result converted back to \<open>long long\<close>.
\<close>

definition hash_key :: "string option \<Rightarrow> 64 word \<Rightarrow> int" where
  "hash_key p_key_arg ht_capacity =
     (case p_key_arg of
        None \<Rightarrow> - 1
      | Some key \<Rightarrow>
          if ht_capacity = 0 then - 1
          else sint ((word_of_int (hash_loop key (- 1) 1) :: 64 word) mod ht_capacity))"

text \<open>
  On its error path \<open>hash_key\<close> also writes a line to \<open>stderr\<close>; this is that effect
  on the world, applied by every caller next to the call.
\<close>

definition hash_key_print :: "'u world \<Rightarrow> string option \<Rightarrow> 64 word \<Rightarrow> 'u world" where
  "hash_key_print w p_key_arg ht_capacity =
     (if p_key_arg = None \<or> ht_capacity = 0
      then w\<lparr>stderr := stderr w @ [''Invalid argument passed to hash_key.'']\<rparr>
      else w)"


section \<open>Primitive steps\<close>

definition mutex_lock :: "hashtable \<Rightarrow> fault + hashtable" where
  "mutex_lock t = (if lock t then Inl Deadlock else Inr (t\<lparr>lock := True\<rparr>))"

definition mutex_unlock :: "hashtable \<Rightarrow> hashtable" where
  "mutex_unlock t = t\<lparr>lock := False\<rparr>"

text \<open>\<open>p_hashtable->pp_entries[i]\<close> as a read and as a write, with a \<open>long long\<close> index.\<close>

definition bucket_at :: "hashtable \<Rightarrow> int \<Rightarrow> fault + addr option" where
  "bucket_at t i =
     (case pp_entries t of
        None \<Rightarrow> Inl Null_Deref
      | Some bs \<Rightarrow> if 0 \<le> i \<and> i < int (length bs) then Inr (bs ! nat i) else Inl Out_Of_Bounds)"

definition bucket_set :: "hashtable \<Rightarrow> int \<Rightarrow> addr option \<Rightarrow> fault + hashtable" where
  "bucket_set t i p =
     (case pp_entries t of
        None \<Rightarrow> Inl Null_Deref
      | Some bs \<Rightarrow>
          if 0 \<le> i \<and> i < int (length bs) then Inr (t\<lparr>pp_entries := Some (bs[nat i := p])\<rparr>)
          else Inl Out_Of_Bounds)"


section \<open>Construction\<close>

text \<open>
  \<open>ht_create\<close>. The two flags are the outcomes of the two \<open>calloc\<close> calls (\<open>True\<close>: memory
  was returned). The second test of the source compares \<open>p_new_hashtable\<close>, not
  \<open>p_new_hashtable->pp_entries\<close>, with \<open>NULL\<close>, so it is written here on the same pointer.
  The array is sized with \<open>sizeof(entry_t)\<close>; the code addresses its first \<open>capacity\<close>
  pointer slots only, and those are the list.
\<close>

definition ht_create :: "'u world \<Rightarrow> 64 word \<Rightarrow> bool \<Rightarrow> bool \<Rightarrow> 'u world" where
  "ht_create w cap calloc_table calloc_entries =
     (if cap = 0
      then w\<lparr>ht := None, stderr := stderr w @ [''Hashtable cannot have 0 capacity.'']\<rparr>
      else
        (case (if calloc_table
               then Some \<lparr>pp_entries = None, size_ht = 0, capacity = 0, lock = False\<rparr>
               else None) of
           None \<Rightarrow> w\<lparr>ht := None, stderr := stderr w @ [''calloc for hashtable in ht_create'']\<rparr>
         | Some t0 \<Rightarrow>
             (let p_new_hashtable =
                    Some (t0\<lparr>pp_entries :=
                               (if calloc_entries then Some (replicate (unat cap) None)
                                else None)\<rparr>)
              in case p_new_hashtable of
                   None \<Rightarrow>
                     w\<lparr>ht := None, stderr := stderr w @ [''calloc for entries in ht_create'']\<rparr>
                 | Some t1 \<Rightarrow>
                     w\<lparr>ht := Some (t1\<lparr>size_ht := 0, capacity := cap, lock := False\<rparr>)\<rparr>)))"


section \<open>Lookup\<close>

text \<open>
  The \<open>while\<close> loop of \<open>ht_find_key\<close>: follow \<open>p_next\<close> until \<open>NULL\<close> or a node with the
  key. Nothing bounds the walk on an arbitrary heap, so the function is partial.
\<close>

partial_function (option) find_entry ::
  "(addr \<rightharpoonup> entry) \<Rightarrow> string \<Rightarrow> addr option \<Rightarrow> (addr option) run"
where
  "find_entry h key p_temp_entry =
     (case p_temp_entry of
        None \<Rightarrow> Some (Inr None)
      | Some a \<Rightarrow>
          (case h a of
             None \<Rightarrow> Some (Inl Dangling_Read)
           | Some e \<Rightarrow>
               if p_key e = key then Some (Inr (Some a))
               else find_entry h key (p_next e)))"

definition ht_find_key :: "'u world \<Rightarrow> string option \<Rightarrow> (ptr \<times> 'u world) run" where
  "ht_find_key w p_key_arg =
     (case (ht w, p_key_arg) of
        (Some t, Some key) \<Rightarrow>
          (let ht_index = hash_key p_key_arg (capacity t);
               w = hash_key_print w p_key_arg (capacity t)
           in
           if ht_index = - 1 then Some (Inr (None, w))
           else
             case bucket_at t ht_index of
               Inl f \<Rightarrow> Some (Inl f)
             | Inr head \<Rightarrow>
                 (case mutex_lock t of
                    Inl f \<Rightarrow> Some (Inl f)
                  | Inr t1 \<Rightarrow>
                      (case find_entry (heap w) key head of
                         None \<Rightarrow> None
                       | Some (Inl f) \<Rightarrow> Some (Inl f)
                       | Some (Inr None) \<Rightarrow>
                           Some (Inr (None, w\<lparr>ht := Some (mutex_unlock t1)\<rparr>))
                       | Some (Inr (Some a)) \<Rightarrow>
                           (case heap w a of
                              None \<Rightarrow> Some (Inl Dangling_Read)
                            | Some e \<Rightarrow>
                                Some (Inr (p_data e, w\<lparr>ht := Some (mutex_unlock t1)\<rparr>))))))
      | _ \<Rightarrow>
          Some (Inr (None, w\<lparr>stderr := stderr w @ [''Invalid argument passed to ht_find.'']\<rparr>)))"


section \<open>Insertion\<close>

text \<open>
  \<open>ht_insert\<close>. \<open>calloc_entry\<close> is what the \<open>calloc\<close> of the node returns (\<open>None\<close> when it
  fails, else an address that is not allocated), \<open>calloc_key\<close> whether the \<open>calloc\<close> of the
  key storage succeeds.
\<close>

definition ht_insert ::
  "'u world \<Rightarrow> string option \<Rightarrow> ptr \<Rightarrow> addr option \<Rightarrow> bool \<Rightarrow> (bool \<times> 'u world) run"
where
  "ht_insert w p_key_arg p_data_arg calloc_entry calloc_key =
     (case (ht w, p_key_arg, p_data_arg) of
        (Some t, Some key, Some d) \<Rightarrow>
          (let ht_index = hash_key p_key_arg (capacity t);
               w = hash_key_print w p_key_arg (capacity t)
           in
           if ht_index = - 1 then Some (Inr (False, w))
           else
             case ht_find_key w p_key_arg of
               None \<Rightarrow> None
             | Some (Inl f) \<Rightarrow> Some (Inl f)
             | Some (Inr (Some found, w1)) \<Rightarrow>
                 Some (Inr (False, w1\<lparr>stderr := stderr w1 @ [''Entry exists.'']\<rparr>))
             | Some (Inr (None, w1)) \<Rightarrow>
                 (case ht w1 of
                    None \<Rightarrow> Some (Inl Null_Deref)
                  | Some t1 \<Rightarrow>
                      (case mutex_lock t1 of
                         Inl f \<Rightarrow> Some (Inl f)
                       | Inr t2 \<Rightarrow>
                           (case calloc_entry of
                              None \<Rightarrow>
                                Some (Inr (False,
                                  w1\<lparr>ht := Some (mutex_unlock t2),
                                     stderr := stderr w1 @ [''calloc for new entry in insert'']\<rparr>))
                            | Some a \<Rightarrow>
                                if \<not> calloc_key
                                then
                                  Some (Inr (False,
                                    w1\<lparr>ht := Some (mutex_unlock t2),
                                       stderr := stderr w1 @ [''calloc for entry key in insert'']\<rparr>))
                                else
                                  (case bucket_at t2 ht_index of
                                     Inl f \<Rightarrow> Some (Inl f)
                                   | Inr head \<Rightarrow>
                                       (case bucket_set t2 ht_index (Some a) of
                                          Inl f \<Rightarrow> Some (Inl f)
                                        | Inr t3 \<Rightarrow>
                                            Some (Inr (True,
                                              w1\<lparr>ht := Some (mutex_unlock
                                                           (t3\<lparr>size_ht := size_ht t3 + 1\<rparr>)),
                                                 heap := (heap w1)
                                                   (a \<mapsto> \<lparr>p_next = head, p_key = key,
                                                          p_data = Some d\<rparr>)\<rparr>))))))))
      | _ \<Rightarrow>
          Some (Inr (False,
            w\<lparr>stderr := stderr w @ [''Invalid argument passed to ht_insert.'']\<rparr>)))"


section \<open>Traversal with a predicate\<close>

text \<open>The inner \<open>while\<close> loop of \<open>ht_compare\<close> over one chain.\<close>

partial_function (option) compare_chain ::
  "(addr \<rightharpoonup> entry) \<Rightarrow> 'u p_comp \<Rightarrow> addr option \<Rightarrow> 'u \<Rightarrow> (ptr \<times> 'u) run"
where
  "compare_chain h p_user_func p_temp_entry u =
     (case p_temp_entry of
        None \<Rightarrow> Some (Inr (None, u))
      | Some a \<Rightarrow>
          (case h a of
             None \<Rightarrow> Some (Inl Dangling_Read)
           | Some e \<Rightarrow>
               (case p_user_func of
                  None \<Rightarrow> Some (Inl Null_Call)
                | Some f \<Rightarrow>
                    (case f (p_data e) u of
                       (Some m, u') \<Rightarrow> Some (Inr (Some m, u'))
                     | (None, u') \<Rightarrow> compare_chain h p_user_func (p_next e) u'))))"

text \<open>The outer \<open>for\<close> loop, over the bucket indices still to visit.\<close>

fun compare_buckets ::
  "(addr \<rightharpoonup> entry) \<Rightarrow> hashtable \<Rightarrow> 'u p_comp \<Rightarrow> nat list \<Rightarrow> 'u \<Rightarrow> (ptr \<times> 'u) run"
where
  "compare_buckets h t p_user_func [] u = Some (Inr (None, u))"
| "compare_buckets h t p_user_func (idx # rest) u =
     (case bucket_at t (int idx) of
        Inl f \<Rightarrow> Some (Inl f)
      | Inr head \<Rightarrow>
          (case compare_chain h p_user_func head u of
             None \<Rightarrow> None
           | Some (Inl f) \<Rightarrow> Some (Inl f)
           | Some (Inr (Some m, u')) \<Rightarrow> Some (Inr (Some m, u'))
           | Some (Inr (None, u')) \<Rightarrow> compare_buckets h t p_user_func rest u'))"

text \<open>
  \<open>ht_compare\<close>. The guard of the source is \<open>(NULL == p_hashtable) || (p_user_func)\<close>:
  it rejects a predicate that is present.
\<close>

definition ht_compare :: "'u world \<Rightarrow> 'u p_comp \<Rightarrow> (ptr \<times> 'u world) run" where
  "ht_compare w p_user_func =
     (case ht w of
        Some t \<Rightarrow>
          if p_user_func \<noteq> None
          then Some (Inr (None,
                 w\<lparr>stderr := stderr w @ [''Invalid argument passed to ht_match.'']\<rparr>))
          else
            (case mutex_lock t of
               Inl f \<Rightarrow> Some (Inl f)
             | Inr t1 \<Rightarrow>
                 (case compare_buckets (heap w) t1 p_user_func [0 ..< unat (capacity t1)]
                         (user w) of
                    None \<Rightarrow> None
                  | Some (Inl f) \<Rightarrow> Some (Inl f)
                  | Some (Inr (p_match, u')) \<Rightarrow>
                      Some (Inr (p_match, w\<lparr>ht := Some (mutex_unlock t1), user := u'\<rparr>))))
      | None \<Rightarrow>
          Some (Inr (None,
            w\<lparr>stderr := stderr w @ [''Invalid argument passed to ht_match.'']\<rparr>)))"


section \<open>Deletion\<close>

text \<open>The \<open>while\<close> loop of \<open>ht_delete\<close>: as in the lookup, remembering the node before.\<close>

partial_function (option) delete_scan ::
  "(addr \<rightharpoonup> entry) \<Rightarrow> string \<Rightarrow> addr option \<Rightarrow> addr option \<Rightarrow> (addr option \<times> addr option) run"
where
  "delete_scan h key p_prev_entry p_temp_entry =
     (case p_temp_entry of
        None \<Rightarrow> Some (Inr (p_prev_entry, None))
      | Some a \<Rightarrow>
          (case h a of
             None \<Rightarrow> Some (Inl Dangling_Read)
           | Some e \<Rightarrow>
               if p_key e = key then Some (Inr (p_prev_entry, Some a))
               else delete_scan h key p_temp_entry (p_next e)))"

text \<open>
  \<open>ht_delete\<close>. When the node is not the first of its chain the source assigns
  \<open>p_prev_entry = p_temp_entry->p_next\<close>, which changes a local variable and no node:
  the table is the same in that branch. The destructor is called without a test for
  \<open>NULL\<close>, then the node is freed; the key storage is not, and \<open>size\<close> is not written.
\<close>

definition ht_delete :: "'u world \<Rightarrow> string option \<Rightarrow> 'u p_del \<Rightarrow> (bool \<times> 'u world) run" where
  "ht_delete w p_key_arg p_del_func =
     (case (ht w, p_key_arg) of
        (Some t, Some key) \<Rightarrow>
          (let ht_index = hash_key p_key_arg (capacity t);
               w = hash_key_print w p_key_arg (capacity t)
           in
           if ht_index = - 1 then Some (Inr (False, w))
           else
             case bucket_at t ht_index of
               Inl f \<Rightarrow> Some (Inl f)
             | Inr head \<Rightarrow>
                 (case mutex_lock t of
                    Inl f \<Rightarrow> Some (Inl f)
                  | Inr t1 \<Rightarrow>
                      (case delete_scan (heap w) key None head of
                         None \<Rightarrow> None
                       | Some (Inl f) \<Rightarrow> Some (Inl f)
                       | Some (Inr (p_prev_entry, None)) \<Rightarrow>
                           Some (Inr (False, w\<lparr>ht := Some (mutex_unlock t1)\<rparr>))
                       | Some (Inr (p_prev_entry, Some a)) \<Rightarrow>
                           (case heap w a of
                              None \<Rightarrow> Some (Inl Dangling_Read)
                            | Some e \<Rightarrow>
                                (case (if p_prev_entry = None
                                       then bucket_set t1 ht_index (p_next e)
                                       else Inr t1) of
                                   Inl f \<Rightarrow> Some (Inl f)
                                 | Inr t2 \<Rightarrow>
                                     (case p_del_func of
                                        None \<Rightarrow> Some (Inl Null_Call)
                                      | Some del \<Rightarrow>
                                          Some (Inr (True,
                                            w\<lparr>ht := Some (mutex_unlock t2),
                                               heap := (heap w)(a := None),
                                               user := del (p_data e) (user w)\<rparr>))))))))
      | _ \<Rightarrow>
          Some (Inr (False,
            w\<lparr>stderr := stderr w @ [''Invalid argument passed to ht_find.'']\<rparr>)))"


section \<open>Well-formed tables\<close>

text \<open>A chain that reaches \<open>NULL\<close> through allocated nodes.\<close>

inductive null_terminated :: "(addr \<rightharpoonup> entry) \<Rightarrow> addr option \<Rightarrow> bool" for h where
  nt_null: "null_terminated h None"
| nt_node: "h a = Some e \<Longrightarrow> null_terminated h (p_next e) \<Longrightarrow> null_terminated h (Some a)"

text \<open>
  A table as \<open>ht_create\<close> returns it when both allocations succeed and as the operations
  keep it while every chain stays intact: the mutex free, a bucket array of \<open>capacity\<close>
  slots, at most \<open>2^63\<close> of them, every chain ending in \<open>NULL\<close>.
\<close>

definition table_ok :: "'u world \<Rightarrow> bool" where
  "table_ok w =
     (case ht w of
        None \<Rightarrow> False
      | Some t \<Rightarrow>
          \<not> lock t \<and> capacity t \<noteq> 0 \<and> uint (capacity t) \<le> 2 ^ 63 \<and>
          (case pp_entries t of
             None \<Rightarrow> False
           | Some bs \<Rightarrow>
               length bs = unat (capacity t) \<and>
               (\<forall>head \<in> set bs. null_terminated (heap w) head)))"


section \<open>Concrete runs\<close>

text \<open>
  The caller state of the runs below is the list of values handed to the destructor, in
  call order; \<open>log_del\<close> is a destructor that appends its argument to it.
\<close>

definition log_del :: "(ptr list) p_del" where
  "log_del = Some (\<lambda>v calls. calls @ [v])"

definition w_start :: "(ptr list) world" where
  "w_start = \<lparr>ht = None, heap = Map.empty, stderr = [], user = []\<rparr>"

text \<open>One bucket: every key shares the chain.\<close>

definition w1_new :: "(ptr list) world" where
  "w1_new =
     \<lparr>ht = Some \<lparr>pp_entries = Some [None], size_ht = 0, capacity = 1, lock = False\<rparr>,
      heap = Map.empty, stderr = [], user = []\<rparr>"

definition w1_a :: "(ptr list) world" where
  "w1_a =
     \<lparr>ht = Some \<lparr>pp_entries = Some [Some 1], size_ht = 1, capacity = 1, lock = False\<rparr>,
      heap = [1 \<mapsto> \<lparr>p_next = None, p_key = ''a'', p_data = Some 10\<rparr>],
      stderr = [], user = []\<rparr>"

definition w1_ab :: "(ptr list) world" where
  "w1_ab =
     \<lparr>ht = Some \<lparr>pp_entries = Some [Some 2], size_ht = 2, capacity = 1, lock = False\<rparr>,
      heap = [1 \<mapsto> \<lparr>p_next = None, p_key = ''a'', p_data = Some 10\<rparr>,
              2 \<mapsto> \<lparr>p_next = Some 1, p_key = ''b'', p_data = Some 20\<rparr>],
      stderr = [], user = []\<rparr>"

text \<open>After \<open>ht_delete\<close> of \<open>a\<close> in \<open>w1_ab\<close>: node 1 is freed, node 2 still points to it.\<close>

definition w1_b_dangling :: "(ptr list) world" where
  "w1_b_dangling =
     \<lparr>ht = Some \<lparr>pp_entries = Some [Some 2], size_ht = 2, capacity = 1, lock = False\<rparr>,
      heap = [2 \<mapsto> \<lparr>p_next = Some 1, p_key = ''b'', p_data = Some 20\<rparr>],
      stderr = [], user = [Some 10]\<rparr>"

text \<open>After \<open>ht_delete\<close> of \<open>a\<close> in \<open>w1_a\<close>: no node is left, \<open>size\<close> is still 1.\<close>

definition w1_a_deleted :: "(ptr list) world" where
  "w1_a_deleted =
     \<lparr>ht = Some \<lparr>pp_entries = Some [None], size_ht = 1, capacity = 1, lock = False\<rparr>,
      heap = Map.empty, stderr = [], user = [Some 10]\<rparr>"

text \<open>
  Two buckets. \<open>a\<close>, \<open>c\<close> and \<open>e\<close> hash to bucket 0 and \<open>b\<close> to bucket 1. The run
  inserts \<open>a\<close>, \<open>c\<close>, \<open>e\<close>, deletes \<open>c\<close>, and inserts \<open>b\<close> into the address that the
  deletion freed.
\<close>

definition w2_new :: "(ptr list) world" where
  "w2_new =
     \<lparr>ht = Some \<lparr>pp_entries = Some [None, None], size_ht = 0, capacity = 2, lock = False\<rparr>,
      heap = Map.empty, stderr = [], user = []\<rparr>"

definition w2_a :: "(ptr list) world" where
  "w2_a =
     \<lparr>ht = Some \<lparr>pp_entries = Some [Some 1, None], size_ht = 1, capacity = 2, lock = False\<rparr>,
      heap = [1 \<mapsto> \<lparr>p_next = None, p_key = ''a'', p_data = Some 10\<rparr>],
      stderr = [], user = []\<rparr>"

definition w2_ac :: "(ptr list) world" where
  "w2_ac =
     \<lparr>ht = Some \<lparr>pp_entries = Some [Some 2, None], size_ht = 2, capacity = 2, lock = False\<rparr>,
      heap = [1 \<mapsto> \<lparr>p_next = None, p_key = ''a'', p_data = Some 10\<rparr>,
              2 \<mapsto> \<lparr>p_next = Some 1, p_key = ''c'', p_data = Some 30\<rparr>],
      stderr = [], user = []\<rparr>"

definition w2_ace :: "(ptr list) world" where
  "w2_ace =
     \<lparr>ht = Some \<lparr>pp_entries = Some [Some 3, None], size_ht = 3, capacity = 2, lock = False\<rparr>,
      heap = [1 \<mapsto> \<lparr>p_next = None, p_key = ''a'', p_data = Some 10\<rparr>,
              2 \<mapsto> \<lparr>p_next = Some 1, p_key = ''c'', p_data = Some 30\<rparr>,
              3 \<mapsto> \<lparr>p_next = Some 2, p_key = ''e'', p_data = Some 50\<rparr>],
      stderr = [], user = []\<rparr>"

definition w2_ae :: "(ptr list) world" where
  "w2_ae =
     \<lparr>ht = Some \<lparr>pp_entries = Some [Some 3, None], size_ht = 3, capacity = 2, lock = False\<rparr>,
      heap = [1 \<mapsto> \<lparr>p_next = None, p_key = ''a'', p_data = Some 10\<rparr>,
              3 \<mapsto> \<lparr>p_next = Some 2, p_key = ''e'', p_data = Some 50\<rparr>],
      stderr = [], user = [Some 30]\<rparr>"

definition w2_aeb :: "(ptr list) world" where
  "w2_aeb =
     \<lparr>ht = Some \<lparr>pp_entries = Some [Some 3, Some 2], size_ht = 4, capacity = 2, lock = False\<rparr>,
      heap = [1 \<mapsto> \<lparr>p_next = None, p_key = ''a'', p_data = Some 10\<rparr>,
              3 \<mapsto> \<lparr>p_next = Some 2, p_key = ''e'', p_data = Some 50\<rparr>,
              2 \<mapsto> \<lparr>p_next = None, p_key = ''b'', p_data = Some 20\<rparr>],
      stderr = [], user = [Some 30]\<rparr>"

text \<open>Seven buckets; the empty key hashes to bucket 1.\<close>

definition w7_new :: "(ptr list) world" where
  "w7_new =
     \<lparr>ht = Some \<lparr>pp_entries = Some [None, None, None, None, None, None, None],
                  size_ht = 0, capacity = 7, lock = False\<rparr>,
      heap = Map.empty, stderr = [], user = []\<rparr>"

definition w7_empty_key :: "(ptr list) world" where
  "w7_empty_key =
     \<lparr>ht = Some \<lparr>pp_entries = Some [None, Some 1, None, None, None, None, None],
                  size_ht = 1, capacity = 7, lock = False\<rparr>,
      heap = [1 \<mapsto> \<lparr>p_next = None, p_key = [], p_data = Some 10\<rparr>],
      stderr = [], user = []\<rparr>"

text \<open>What \<open>ht_create(7)\<close> returns when the \<open>calloc\<close> of the bucket array fails.\<close>

definition w7_no_array :: "(ptr list) world" where
  "w7_no_array =
     \<lparr>ht = Some \<lparr>pp_entries = None, size_ht = 0, capacity = 7, lock = False\<rparr>,
      heap = Map.empty, stderr = [], user = []\<rparr>"

text \<open>A predicate that accepts every value: it returns its argument.\<close>

definition accept_all :: "(ptr list) p_comp" where
  "accept_all = Some (\<lambda>v calls. (v, calls))"


section \<open>The hash function: range, sentinel, absence of overflow\<close>

lemma sint_small:
  fixes x :: "64 word"
  assumes "uint x < 2 ^ 63"
  shows "sint x = uint x"
proof -
  have "sint x = signed_take_bit 63 (uint x)" by (simp add: sint_uint)
  also have "\<dots> = uint x"
  proof (rule signed_take_bit_int_eq_self)
    show "- (2 ^ 63) \<le> uint x" by (rule order_trans [of _ 0]) simp_all
    show "uint x < 2 ^ 63" by (fact assms)
  qed
  finally show ?thesis .
qed

lemma sint_eq_minus1:
  fixes x :: "64 word"
  shows "sint x = - 1 \<longleftrightarrow> x = - 1"
proof
  assume "sint x = - 1"
  then have "sint x = sint (- 1 :: 64 word)" by simp
  then show "x = - 1" by (rule signed_word_eqI)
qed simp

lemma mod_not_max:
  fixes x c :: "64 word"
  assumes "c \<noteq> 0"
  shows "x mod c \<noteq> - 1"
proof
  assume "x mod c = - 1"
  moreover have "x mod c < c"
    using assms by (simp add: word_mod_less_divisor word_greater_zero_iff)
  ultimately have "(- 1 :: 64 word) < c" by simp
  then show False by simp
qed

text \<open>The sentinel is returned for a \<open>NULL\<close> key or a zero capacity, and only then.\<close>

lemma hash_key_sentinel_iff:
  "hash_key p_key_arg cap = - 1 \<longleftrightarrow> p_key_arg = None \<or> cap = 0"
  by (cases p_key_arg) (simp_all add: hash_key_def sint_eq_minus1 mod_not_max)

lemma hash_key_print_fields:
  "ht (hash_key_print w k cap) = ht w"
  "heap (hash_key_print w k cap) = heap w"
  "user (hash_key_print w k cap) = user w"
  by (simp_all add: hash_key_print_def)

lemma hash_key_print_silent:
  "hash_key (Some key) cap \<noteq> - 1 \<Longrightarrow> hash_key_print w (Some key) cap = w"
  by (simp add: hash_key_print_def hash_key_sentinel_iff)

text \<open>Up to \<open>2^63\<close> buckets the result is an index into the bucket array.\<close>

lemma hash_key_range:
  assumes "cap \<noteq> 0" "uint cap \<le> 2 ^ 63"
  shows "0 \<le> hash_key (Some key) cap \<and> hash_key (Some key) cap < uint cap"
proof -
  let ?r = "(word_of_int (hash_loop key (- 1) 1) :: 64 word) mod cap"
  have "?r < cap" using assms(1) by (simp add: word_mod_less_divisor word_greater_zero_iff)
  then have lt: "uint ?r < uint cap" by (simp add: word_less_def)
  then have "sint ?r = uint ?r" using assms(2) by (intro sint_small) linarith
  then show ?thesis using lt assms(1) by (simp add: hash_key_def)
qed

lemma hash_key_empty:
  assumes "cap \<noteq> 0" "uint cap \<le> 2 ^ 63"
  shows "hash_key (Some []) cap = (2 ^ 64 - 1) mod uint cap"
proof -
  let ?r = "(- 1 :: 64 word) mod cap"
  have "?r < cap" using assms(1) by (simp add: word_mod_less_divisor word_greater_zero_iff)
  then have "uint ?r < uint cap" by (simp add: word_less_def)
  then have "sint ?r = uint ?r" using assms(2) by (intro sint_small) linarith
  moreover have "uint (- 1 :: 64 word) = 2 ^ 64 - 1"
    by (simp add: unsigned_minus_1_eq_mask mask_eq_exp_minus_1)
  then have "uint ?r = (2 ^ 64 - 1) mod uint cap" by (simp add: uint_mod)
  ultimately show ?thesis using assms(1) by (simp add: hash_key_def)
qed

lemma of_char_int_range: "0 \<le> (of_char c :: int) \<and> (of_char c :: int) < 256"
proof -
  have "(of_char c :: int) mod 256 = of_char c" by simp
  then show ?thesis
    using pos_mod_sign [of 256 "of_char c :: int"] pos_mod_bound [of 256 "of_char c :: int"]
    by simp
qed

lemma digit_range:
  "- 224 \<le> char_to_int c - char_to_int CHR ''a'' + 1 \<and>
   char_to_int c - char_to_int CHR ''a'' + 1 \<le> 31"
  using of_char_int_range [of c] by (simp add: char_to_int_def Let_def)

lemma product_bound:
  fixes d p :: int
  assumes "- 224 \<le> d" "d \<le> 31" "0 \<le> p" "p < large"
  shows "- 224 * large \<le> d * p \<and> d * p \<le> 31 * large"
proof -
  have "d * p \<le> 31 * p" using assms by (intro mult_right_mono) auto
  moreover have "- 224 * p \<le> d * p" using assms by (intro mult_right_mono) auto
  ultimately show ?thesis using assms by (simp add: large_def)
qed

lemma hash_loop_fits_inv:
  "- large < hash \<Longrightarrow> hash < large \<Longrightarrow> 0 \<le> pwr \<Longrightarrow> pwr < large \<Longrightarrow>
   hash_loop_fits cs hash pwr"
proof (induction cs arbitrary: hash pwr)
  case Nil
  then show ?case by simp
next
  case (Cons c cs)
  let ?d = "char_to_int c - char_to_int CHR ''a'' + 1"
  have pb: "- 224 * large \<le> ?d * pwr \<and> ?d * pwr \<le> 31 * large"
    using digit_range [of c] Cons.prems by (intro product_bound) auto
  have lp: "0 < large" by (simp add: large_def)
  have h1: "- large < (hash + ?d * pwr) smod large \<and> (hash + ?d * pwr) smod large < large"
    using smod_int_range [of large "hash + ?d * pwr"] lp by auto
  have p1: "0 \<le> (pwr * choice) smod large \<and> (pwr * choice) smod large < large"
    using smod_int_compares(1,2) [of "pwr * choice" large] lp Cons.prems
    by (simp add: choice_def)
  have "hash_loop_fits cs ((hash + ?d * pwr) smod large) ((pwr * choice) smod large)"
    using h1 p1 by (intro Cons.IH) auto
  moreover have "fits_long_long (?d * pwr)"
    using pb by (simp add: fits_long_long_def large_def)
  moreover have "fits_long_long (hash + ?d * pwr)"
    using pb Cons.prems by (simp add: fits_long_long_def large_def)
  moreover have "fits_long_long (pwr * choice)"
    using Cons.prems by (simp add: fits_long_long_def large_def choice_def)
  ultimately show ?case by simp
qed

text \<open>From the initial values of \<open>hash_key\<close> no step of the loop leaves \<open>long long\<close>.\<close>

lemma hash_loop_no_overflow: "hash_loop_fits key (- 1) 1"
  by (rule hash_loop_fits_inv) (simp_all add: large_def)


section \<open>Unfolding the loops\<close>

lemma find_entry_None: "find_entry h key None = Some (Inr None)"
  by (subst find_entry.simps) simp

lemma find_entry_Some:
  "find_entry h key (Some a) =
     (case h a of
        None \<Rightarrow> Some (Inl Dangling_Read)
      | Some e \<Rightarrow> if p_key e = key then Some (Inr (Some a)) else find_entry h key (p_next e))"
  by (subst find_entry.simps) simp

lemma delete_scan_None: "delete_scan h key prev None = Some (Inr (prev, None))"
  by (subst delete_scan.simps) simp

lemma delete_scan_Some:
  "delete_scan h key prev (Some a) =
     (case h a of
        None \<Rightarrow> Some (Inl Dangling_Read)
      | Some e \<Rightarrow>
          if p_key e = key then Some (Inr (prev, Some a))
          else delete_scan h key (Some a) (p_next e))"
  by (subst delete_scan.simps) simp

lemma compare_chain_None: "compare_chain h f None u = Some (Inr (None, u))"
  by (subst compare_chain.simps) simp

lemma compare_chain_Some:
  "compare_chain h f (Some a) u =
     (case h a of
        None \<Rightarrow> Some (Inl Dangling_Read)
      | Some e \<Rightarrow>
          (case f of
             None \<Rightarrow> Some (Inl Null_Call)
           | Some g \<Rightarrow>
               (case g (p_data e) u of
                  (Some m, u') \<Rightarrow> Some (Inr (Some m, u'))
                | (None, u') \<Rightarrow> compare_chain h f (p_next e) u')))"
  by (subst compare_chain.simps) simp

lemmas run_simps =
  ht_insert_def ht_find_key_def ht_delete_def ht_compare_def hash_key_def hash_key_print_def
  bucket_at_def bucket_set_def mutex_lock_def mutex_unlock_def char_to_int_def large_def
  choice_def signed_modulo_int_def find_entry_None find_entry_Some delete_scan_None
  delete_scan_Some compare_chain_None compare_chain_Some


section \<open>Lookup: frame and termination\<close>

lemma unlock_after_lock: "mutex_lock t = Inr t1 \<Longrightarrow> mutex_unlock t1 = t"
  by (cases t) (auto simp: mutex_lock_def mutex_unlock_def split: if_splits)

lemma world_ht_same: "ht w = Some t \<Longrightarrow> w\<lparr>ht := Some t\<rparr> = w"
  by (cases w) simp

lemma find_entry_null_terminated:
  "null_terminated h p \<Longrightarrow>
   find_entry h key p = Some (Inr None) \<or>
   (\<exists>a e. find_entry h key p = Some (Inr (Some a)) \<and> h a = Some e \<and> p_key e = key)"
proof (induction rule: null_terminated.induct)
  case nt_null
  then show ?case by (simp add: find_entry_None)
next
  case (nt_node a e)
  then show ?case by (cases "p_key e = key") (simp_all add: find_entry_Some)
qed

lemma ht_find_key_found_same:
  assumes "ht_find_key w k = Some (Inr (Some v, w'))"
  shows "w' = w"
  using assms
  by (auto simp: ht_find_key_def Let_def unlock_after_lock world_ht_same
                 hash_key_print_silent
           split: option.splits sum.splits if_splits)

lemma ht_find_key_absent_same:
  assumes "ht_find_key w (Some key) = Some (Inr (None, w'))" "ht w = Some t"
      and "capacity t \<noteq> 0"
  shows "w' = w"
  using assms
  by (auto simp: ht_find_key_def Let_def unlock_after_lock world_ht_same
                 hash_key_print_silent hash_key_sentinel_iff
           split: option.splits sum.splits if_splits)

lemma ht_find_key_same_table:
  assumes "ht_find_key w k = Some (Inr (r, w'))"
  shows "ht w' = ht w \<and> heap w' = heap w \<and> user w' = user w"
  using assms
  by (auto simp: ht_find_key_def Let_def unlock_after_lock hash_key_print_fields
           split: option.splits sum.splits if_splits)

lemma table_ok_bucket:
  assumes "table_ok w" "ht w = Some t"
  shows "\<exists>head. bucket_at t (hash_key (Some key) (capacity t)) = Inr head \<and>
           null_terminated (heap w) head \<and> hash_key (Some key) (capacity t) \<noteq> - 1"
proof -
  from assms obtain bs where bs: "pp_entries t = Some bs" "length bs = unat (capacity t)"
      "\<forall>head \<in> set bs. null_terminated (heap w) head"
    and cap: "capacity t \<noteq> 0" "uint (capacity t) \<le> 2 ^ 63"
    by (auto simp: table_ok_def split: option.splits)
  let ?i = "hash_key (Some key) (capacity t)"
  have r: "0 \<le> ?i \<and> ?i < uint (capacity t)" using cap by (rule hash_key_range)
  have len: "int (length bs) = uint (capacity t)" using bs(2) by simp
  have "nat ?i < length bs" using r len by linarith
  then have "bs ! nat ?i \<in> set bs" by simp
  then have "null_terminated (heap w) (bs ! nat ?i)" using bs(3) by blast
  moreover have "bucket_at t ?i = Inr (bs ! nat ?i)"
    using r bs(1) len by (simp add: bucket_at_def)
  ultimately show ?thesis using r by auto
qed

lemma ht_find_key_returns:
  assumes "table_ok w"
  shows "\<exists>r w'. ht_find_key w k = Some (Inr (r, w'))"
proof (cases k)
  case None
  then show ?thesis by (simp add: ht_find_key_def split: option.splits)
next
  case (Some key)
  from assms obtain t where t: "ht w = Some t" "\<not> lock t"
    by (auto simp: table_ok_def split: option.splits)
  from table_ok_bucket [OF assms t(1), of key] obtain head where
    h: "bucket_at t (hash_key (Some key) (capacity t)) = Inr head"
       "null_terminated (heap w) head" "hash_key (Some key) (capacity t) \<noteq> - 1"
    by blast
  have l: "mutex_lock t = Inr (t\<lparr>lock := True\<rparr>)" using t(2) by (simp add: mutex_lock_def)
  from find_entry_null_terminated [OF h(2), of key] show ?thesis
  proof
    assume "find_entry (heap w) key head = Some (Inr None)"
    then show ?thesis using Some t h l by (simp add: ht_find_key_def hash_key_print_silent)
  next
    assume "\<exists>a e. find_entry (heap w) key head = Some (Inr (Some a)) \<and>
                   heap w a = Some e \<and> p_key e = key"
    then show ?thesis using Some t h l by (auto simp: ht_find_key_def hash_key_print_silent)
  qed
qed

lemma ht_find_key_stderr:
  assumes "ht_find_key w (Some key) = Some (Inr (Some v, w'))"
  shows "ht_find_key (w\<lparr>stderr := s\<rparr>) (Some key) = Some (Inr (Some v, w\<lparr>stderr := s\<rparr>))"
proof -
  have w': "w' = w" using assms by (rule ht_find_key_found_same)
  show ?thesis
    using assms [unfolded w']
    by (auto simp: ht_find_key_def Let_def unlock_after_lock hash_key_print_silent
             split: option.splits sum.splits if_splits)
qed

text \<open>
  Claim C10. \<open>ht_find_key\<close> leaves the table unchanged: whenever the call returns, found
  or not, the table object (bucket array, \<open>size\<close>, \<open>capacity\<close>, mutex), every entry node
  and the caller's state are the ones before the call; and on every well-formed table,
  for every key, the call does return.
\<close>

theorem ht_find_key_frame:
  "(\<forall>r w'. ht_find_key w k = Some (Inr (r, w')) \<longrightarrow>
            ht w' = ht w \<and> heap w' = heap w \<and> user w' = user w) \<and>
   (table_ok w \<longrightarrow> (\<exists>r w'. ht_find_key w k = Some (Inr (r, w'))))"
  using ht_find_key_same_table [of w k] ht_find_key_returns [of w k] by blast

lemma table_ok_w1_ab: "table_ok w1_ab"
proof -
  have "null_terminated (heap w1_ab) None" by (rule nt_null)
  then have "null_terminated (heap w1_ab) (Some 1)"
    by (intro nt_node [where e = "\<lparr>p_next = None, p_key = ''a'', p_data = Some 10\<rparr>"])
       (simp_all add: w1_ab_def)
  then have "null_terminated (heap w1_ab) (Some 2)"
    by (intro nt_node [where e = "\<lparr>p_next = Some 1, p_key = ''b'', p_data = Some 20\<rparr>"])
       (simp_all add: w1_ab_def)
  then show ?thesis by (simp add: table_ok_def w1_ab_def)
qed

theorem ht_find_key_frame_witness:
  "table_ok w1_ab \<and>
   ht_find_key w1_ab (Some ''a'') = Some (Inr (Some 10, w1_ab)) \<and>
   ht_find_key w1_ab (Some ''z'') = Some (Inr (None, w1_ab)) \<and>
   (\<exists>r w'. ht_find_key w1_ab (Some ''a'') = Some (Inr (r, w')) \<and>
           ht w' = ht w1_ab \<and> heap w' = heap w1_ab \<and> user w' = user w1_ab)"
proof -
  have a: "ht_find_key w1_ab (Some ''a'') = Some (Inr (Some 10, w1_ab))"
    by (simp add: run_simps w1_ab_def)
  have z: "ht_find_key w1_ab (Some ''z'') = Some (Inr (None, w1_ab))"
    by (simp add: run_simps w1_ab_def)
  show ?thesis
    using ht_find_key_frame [of w1_ab "Some ''a''"] table_ok_w1_ab a z by blast
qed


section \<open>Insertion\<close>

lemma ht_insert_True_world:
  assumes "ht_insert w (Some key) (Some d) calloc_entry calloc_key = Some (Inr (True, w'))"
  shows "\<exists>t bs a. ht w = Some t \<and> \<not> lock t \<and> pp_entries t = Some bs \<and> calloc_entry = Some a \<and>
           hash_key (Some key) (capacity t) \<noteq> - 1 \<and>
           0 \<le> hash_key (Some key) (capacity t) \<and>
           hash_key (Some key) (capacity t) < int (length bs) \<and>
           w' = w\<lparr>ht := Some (t\<lparr>pp_entries :=
                                  Some (bs[nat (hash_key (Some key) (capacity t)) := Some a]),
                                size_ht := size_ht t + 1\<rparr>),
                  heap := (heap w)(a \<mapsto> \<lparr>p_next = bs ! nat (hash_key (Some key) (capacity t)),
                                         p_key = key, p_data = Some d\<rparr>)\<rparr>"
proof -
  obtain t where t: "ht w = Some t" and i: "hash_key (Some key) (capacity t) \<noteq> - 1"
    using assms by (auto simp: ht_insert_def Let_def split: option.splits if_splits)
  obtain w1 where f: "ht_find_key w (Some key) = Some (Inr (None, w1))"
    using assms t i
    by (auto simp: ht_insert_def Let_def hash_key_print_silent split: option.splits sum.splits)
  have c: "capacity t \<noteq> 0" using i by (simp add: hash_key_sentinel_iff)
  have w1: "w1 = w" using f t c by (rule ht_find_key_absent_same)
  show ?thesis
    using assms t i f [unfolded w1]
    by (cases t)
       (auto simp: ht_insert_def Let_def mutex_lock_def mutex_unlock_def bucket_at_def
                   bucket_set_def hash_key_print_silent
             split: option.splits sum.splits if_splits)
qed

text \<open>A successful insertion adds one to \<open>size\<close>, modulo \<open>2^64\<close>.\<close>

lemma ht_insert_size:
  assumes "ht_insert w (Some key) (Some d) calloc_entry calloc_key = Some (Inr (True, w'))"
  shows "map_option size_ht (ht w') = map_option (\<lambda>t. size_ht t + 1) (ht w)"
  using ht_insert_True_world [OF assms] by auto

text \<open>
  Right after a successful \<open>ht_insert\<close> of a key and a value, \<open>ht_find_key\<close> of the key
  returns the value, on any table and heap.
\<close>

lemma ht_insert_then_find:
  assumes "ht_insert w (Some key) (Some d) calloc_entry calloc_key = Some (Inr (True, w'))"
  shows "ht_find_key w' (Some key) = Some (Inr (Some d, w'))"
proof -
  from ht_insert_True_world [OF assms] obtain t bs a where
    t: "ht w = Some t" "\<not> lock t" "pp_entries t = Some bs"
    and i: "hash_key (Some key) (capacity t) \<noteq> - 1" "0 \<le> hash_key (Some key) (capacity t)"
       "hash_key (Some key) (capacity t) < int (length bs)"
    and w': "w' = w\<lparr>ht := Some (t\<lparr>pp_entries :=
                                  Some (bs[nat (hash_key (Some key) (capacity t)) := Some a]),
                                size_ht := size_ht t + 1\<rparr>),
                  heap := (heap w)(a \<mapsto> \<lparr>p_next = bs ! nat (hash_key (Some key) (capacity t)),
                                         p_key = key, p_data = Some d\<rparr>)\<rparr>"
    by blast
  show ?thesis
    using t i
    by (cases t)
       (simp add: w' ht_find_key_def bucket_at_def mutex_lock_def mutex_unlock_def
                  find_entry_Some Let_def hash_key_print_silent)
qed

lemma ht_insert_succeeds:
  assumes "table_ok w" "ht_find_key w (Some key) = Some (Inr (None, w1))"
  shows "\<exists>w'. ht_insert w (Some key) (Some d) (Some a) True = Some (Inr (True, w'))"
proof -
  from assms(1) obtain t where t: "ht w = Some t" "\<not> lock t"
    by (auto simp: table_ok_def split: option.splits)
  from table_ok_bucket [OF assms(1) t(1), of key] obtain head where
    h: "bucket_at t (hash_key (Some key) (capacity t)) = Inr head"
       "hash_key (Some key) (capacity t) \<noteq> - 1"
    by blast
  have c: "capacity t \<noteq> 0" using h(2) by (simp add: hash_key_sentinel_iff)
  have w1: "w1 = w" using assms(2) t(1) c by (rule ht_find_key_absent_same)
  show ?thesis
    using t h assms(2) [unfolded w1]
    by (auto simp: ht_insert_def Let_def mutex_lock_def mutex_unlock_def bucket_at_def
                   bucket_set_def hash_key_print_silent
             split: option.splits sum.splits if_splits)
qed

text \<open>
  Insertions alone keep the table well formed and keep every key findable: a node at a
  fresh address is on no chain, so the walk to another key passes the new head at most.
\<close>

lemma find_entry_fresh:
  assumes "null_terminated h p" "h a = None"
  shows "find_entry (h(a \<mapsto> e)) key p = find_entry h key p"
  using assms
proof (induction rule: null_terminated.induct)
  case nt_null
  then show ?case by (simp add: find_entry_None)
next
  case (nt_node b eb)
  then have "b \<noteq> a" by auto
  then show ?case using nt_node by (simp add: find_entry_Some)
qed

lemma ht_find_key_Some_chain:
  assumes "ht_find_key w (Some k) = Some (Inr (Some v, w0))" "ht w = Some t"
  shows "\<exists>head b eb. bucket_at t (hash_key (Some k) (capacity t)) = Inr head \<and> \<not> lock t \<and>
           hash_key (Some k) (capacity t) \<noteq> - 1 \<and>
           find_entry (heap w) k head = Some (Inr (Some b)) \<and> heap w b = Some eb \<and>
           p_data eb = Some v"
  using assms
  by (auto simp: ht_find_key_def Let_def mutex_lock_def hash_key_print_fields
           split: option.splits sum.splits if_splits)

lemma ht_insert_keeps_other:
  assumes ok: "table_ok w"
      and f: "ht_find_key w (Some k) = Some (Inr (Some v, w0))"
      and ins: "ht_insert w (Some k') (Some d) (Some a) calloc_key = Some (Inr (True, w'))"
      and ne: "k' \<noteq> k"
      and fresh: "heap w a = None"
  shows "ht_find_key w' (Some k) = Some (Inr (Some v, w'))"
proof -
  from ht_insert_True_world [OF ins] obtain t bs where
    t: "ht w = Some t" "\<not> lock t" "pp_entries t = Some bs"
    and i': "0 \<le> hash_key (Some k') (capacity t)"
       "hash_key (Some k') (capacity t) < int (length bs)"
    and w': "w' = w\<lparr>ht := Some (t\<lparr>pp_entries :=
                                  Some (bs[nat (hash_key (Some k') (capacity t)) := Some a]),
                                size_ht := size_ht t + 1\<rparr>),
                  heap := (heap w)(a \<mapsto> \<lparr>p_next = bs ! nat (hash_key (Some k') (capacity t)),
                                         p_key = k', p_data = Some d\<rparr>)\<rparr>"
    by blast
  let ?i = "hash_key (Some k) (capacity t)"
  let ?i' = "hash_key (Some k') (capacity t)"
  let ?e = "\<lparr>p_next = bs ! nat ?i', p_key = k', p_data = Some d\<rparr>"
  from ht_find_key_Some_chain [OF f t(1)] obtain head b eb where
    c: "bucket_at t ?i = Inr head" "?i \<noteq> - 1"
       "find_entry (heap w) k head = Some (Inr (Some b))" "heap w b = Some eb"
       "p_data eb = Some v"
    by blast
  from table_ok_bucket [OF ok t(1), of k] c(1) have nt: "null_terminated (heap w) head"
    by auto
  have i: "0 \<le> ?i" "?i < int (length bs)" "head = bs ! nat ?i"
    using c(1) t(3) by (auto simp: bucket_at_def split: if_splits)
  have ba: "b \<noteq> a" using c(4) fresh by auto
  have walk: "find_entry ((heap w)(a \<mapsto> ?e)) k head = Some (Inr (Some b))"
    using find_entry_fresh [OF nt fresh] c(3) by simp
  have "find_entry ((heap w)(a \<mapsto> ?e)) k (bs[nat ?i' := Some a] ! nat ?i) = Some (Inr (Some b))"
  proof (cases "nat ?i = nat ?i'")
    case True
    then have "bs[nat ?i' := Some a] ! nat ?i = Some a" using i i' by simp
    moreover have "bs ! nat ?i' = head" using True i(3) by simp
    ultimately show ?thesis using walk ne by (simp add: find_entry_Some)
  next
    case False
    then have "bs[nat ?i' := Some a] ! nat ?i = head" using i(3) by simp
    then show ?thesis using walk by simp
  qed
  then show ?thesis
    using t i c(2,4,5) ba
    by (cases t)
       (simp add: w' ht_find_key_def bucket_at_def mutex_lock_def mutex_unlock_def Let_def
                  hash_key_print_silent)
qed

lemma null_terminated_fresh:
  assumes "null_terminated h p" "h a = None"
  shows "null_terminated (h(a \<mapsto> e)) p"
  using assms
proof (induction rule: null_terminated.induct)
  case nt_null
  show ?case by (rule null_terminated.nt_null)
next
  case (nt_node b eb)
  then have "b \<noteq> a" by auto
  then have "(h(a \<mapsto> e)) b = Some eb" using nt_node by simp
  then show ?case using nt_node by (intro null_terminated.nt_node) auto
qed

lemma ht_insert_table_ok:
  assumes ok: "table_ok w"
      and ins: "ht_insert w (Some key) (Some d) (Some a) calloc_key = Some (Inr (True, w'))"
      and fresh: "heap w a = None"
  shows "table_ok w'"
proof -
  from ht_insert_True_world [OF ins] obtain t bs where
    t: "ht w = Some t" "\<not> lock t" "pp_entries t = Some bs"
    and i: "0 \<le> hash_key (Some key) (capacity t)"
       "hash_key (Some key) (capacity t) < int (length bs)"
    and w': "w' = w\<lparr>ht := Some (t\<lparr>pp_entries :=
                                  Some (bs[nat (hash_key (Some key) (capacity t)) := Some a]),
                                size_ht := size_ht t + 1\<rparr>),
                  heap := (heap w)(a \<mapsto> \<lparr>p_next = bs ! nat (hash_key (Some key) (capacity t)),
                                         p_key = key, p_data = Some d\<rparr>)\<rparr>"
    by blast
  let ?i = "nat (hash_key (Some key) (capacity t))"
  let ?e = "\<lparr>p_next = bs ! ?i, p_key = key, p_data = Some d\<rparr>"
  let ?h = "(heap w)(a \<mapsto> ?e)"
  from ok t have cap: "capacity t \<noteq> 0" "uint (capacity t) \<le> 2 ^ 63"
      "length bs = unat (capacity t)"
    and all: "\<forall>head \<in> set bs. null_terminated (heap w) head"
    by (auto simp: table_ok_def)
  have old: "null_terminated ?h head" if "head \<in> set bs" for head
    using all that fresh by (intro null_terminated_fresh) auto
  have "?i < length bs" using i by linarith
  then have "bs ! ?i \<in> set bs" by simp
  then have "null_terminated ?h (bs ! ?i)" by (rule old)
  then have new: "null_terminated ?h (Some a)"
    by (intro nt_node [where e = ?e]) simp_all
  have "null_terminated ?h head" if "head \<in> set (bs[?i := Some a])" for head
  proof -
    from that set_update_subset_insert [of bs ?i "Some a"]
    have "head = Some a \<or> head \<in> set bs" by auto
    then show ?thesis using new old by auto
  qed
  then show ?thesis using t cap by (simp add: w' table_ok_def)
qed

text \<open>
  Claim C6. When \<open>ht_find_key\<close> already returns a value \<open>v\<close> for the key, \<open>ht_insert\<close>
  of the key with any value fails with the duplicate-key message, whatever the
  allocator would do; the table, the heap and the caller's state are unchanged (only
  the line on \<open>stderr\<close> is new), and \<open>ht_find_key\<close> still returns \<open>v\<close>.
\<close>

theorem ht_insert_duplicate:
  assumes "ht_find_key w (Some key) = Some (Inr (Some v, w0))"
  shows "ht_insert w (Some key) (Some d) calloc_entry calloc_key =
           Some (Inr (False, w\<lparr>stderr := stderr w @ [''Entry exists.'']\<rparr>)) \<and>
         ht_find_key (w\<lparr>stderr := stderr w @ [''Entry exists.'']\<rparr>) (Some key) =
           Some (Inr (Some v, w\<lparr>stderr := stderr w @ [''Entry exists.'']\<rparr>))"
proof -
  have w0: "w0 = w" using assms by (rule ht_find_key_found_same)
  obtain t where t: "ht w = Some t" "hash_key (Some key) (capacity t) \<noteq> - 1"
    using assms by (auto simp: ht_find_key_def Let_def split: option.splits if_splits)
  have "ht_insert w (Some key) (Some d) calloc_entry calloc_key =
          Some (Inr (False, w\<lparr>stderr := stderr w @ [''Entry exists.'']\<rparr>))"
    using assms t by (simp add: ht_insert_def w0 hash_key_print_silent)
  then show ?thesis using ht_find_key_stderr [OF assms] by simp
qed

theorem ht_insert_duplicate_witness:
  "ht_find_key w1_a (Some ''a'') = Some (Inr (Some 10, w1_a)) \<and>
   ht_insert w1_a (Some ''a'') (Some 99) (Some 5) True =
     Some (Inr (False, w1_a\<lparr>stderr := stderr w1_a @ [''Entry exists.'']\<rparr>)) \<and>
   ht_find_key (w1_a\<lparr>stderr := stderr w1_a @ [''Entry exists.'']\<rparr>) (Some ''a'') =
     Some (Inr (Some 10, w1_a\<lparr>stderr := stderr w1_a @ [''Entry exists.'']\<rparr>))"
proof -
  have h: "ht_find_key w1_a (Some ''a'') = Some (Inr (Some 10, w1_a))"
    by (simp add: run_simps w1_a_def)
  show ?thesis using ht_insert_duplicate [OF h, of 99 "Some 5" True] h by simp
qed


section \<open>Deletion\<close>

text \<open>No path of \<open>ht_delete\<close> writes \<open>size\<close>.\<close>

lemma ht_delete_size:
  assumes "ht_delete w k del = Some (Inr (r, w'))"
  shows "map_option size_ht (ht w') = map_option size_ht (ht w)"
  using assms
  by (auto simp: ht_delete_def Let_def mutex_lock_def mutex_unlock_def bucket_set_def
                 hash_key_print_fields
           split: option.splits sum.splits if_splits prod.splits)

text \<open>
  Deleting the first node of a chain, here the node a successful \<open>ht_insert\<close> has just
  put there: the bucket points to the old head again, the node is freed, the destructor
  has run once, on the value, and \<open>size\<close> stays incremented.
\<close>

lemma ht_delete_after_insert:
  assumes "ht_insert w (Some key) (Some d) calloc_entry calloc_key = Some (Inr (True, w'))"
      and "ht w = Some t" "calloc_entry = Some a"
  shows "ht_delete w' (Some key) (Some del) =
           Some (Inr (True, w\<lparr>ht := Some (t\<lparr>size_ht := size_ht t + 1\<rparr>),
                              heap := (heap w)(a := None),
                              user := del (Some d) (user w)\<rparr>))"
proof -
  from ht_insert_True_world [OF assms(1)] assms(2,3) obtain bs where
    t: "\<not> lock t" "pp_entries t = Some bs"
    and i: "hash_key (Some key) (capacity t) \<noteq> - 1" "0 \<le> hash_key (Some key) (capacity t)"
       "hash_key (Some key) (capacity t) < int (length bs)"
    and w': "w' = w\<lparr>ht := Some (t\<lparr>pp_entries :=
                                  Some (bs[nat (hash_key (Some key) (capacity t)) := Some a]),
                                size_ht := size_ht t + 1\<rparr>),
                  heap := (heap w)(a \<mapsto> \<lparr>p_next = bs ! nat (hash_key (Some key) (capacity t)),
                                         p_key = key, p_data = Some d\<rparr>)\<rparr>"
    by auto
  show ?thesis
    using t i assms(2)
    by (cases t)
       (simp add: w' ht_delete_def bucket_at_def bucket_set_def mutex_lock_def mutex_unlock_def
                  delete_scan_Some Let_def hash_key_print_silent)
qed

text \<open>
  Claim C3, at a failing input. One bucket; \<open>a\<close> is inserted, then \<open>b\<close>, so the chain is
  \<open>b\<close>, \<open>a\<close>. \<open>ht_delete\<close> of \<open>a\<close> returns true and runs the destructor once on the value
  of \<open>a\<close>, but node 2 (\<open>b\<close>) still points to node 1, which is freed: the entry is not
  unlinked, and \<open>ht_find_key\<close> of \<open>a\<close> then reads the freed node instead of returning
  empty.
\<close>

theorem ht_delete_non_head_not_unlinked:
  "ht_create w_start 1 True True = w1_new \<and>
   ht_insert w1_new (Some ''a'') (Some 10) (Some 1) True = Some (Inr (True, w1_a)) \<and>
   ht_insert w1_a (Some ''b'') (Some 20) (Some 2) True = Some (Inr (True, w1_ab)) \<and>
   ht_delete w1_ab (Some ''a'') log_del = Some (Inr (True, w1_b_dangling)) \<and>
   map_option p_next (heap w1_b_dangling 2) = Some (Some 1) \<and>
   heap w1_b_dangling 1 = None \<and>
   user w1_b_dangling = [Some 10] \<and>
   ht_find_key w1_b_dangling (Some ''a'') = Some (Inl Dangling_Read)"
proof -
  have "ht_create w_start 1 True True = w1_new"
    by (simp add: ht_create_def w_start_def w1_new_def)
  moreover have "ht_insert w1_new (Some ''a'') (Some 10) (Some 1) True = Some (Inr (True, w1_a))"
    by (simp add: run_simps w1_new_def w1_a_def)
  moreover have "ht_insert w1_a (Some ''b'') (Some 20) (Some 2) True = Some (Inr (True, w1_ab))"
    by (simp add: run_simps w1_a_def w1_ab_def)
  moreover have "ht_delete w1_ab (Some ''a'') log_del = Some (Inr (True, w1_b_dangling))"
    by (simp add: run_simps w1_ab_def w1_b_dangling_def log_del_def fun_eq_iff)
  moreover have "ht_find_key w1_b_dangling (Some ''a'') = Some (Inl Dangling_Read)"
    by (simp add: run_simps w1_b_dangling_def)
  ultimately show ?thesis by (simp add: w1_b_dangling_def)
qed

text \<open>
  Claim C8, at a failing input. With \<open>a\<close> in the table, \<open>ht_delete\<close> of \<open>a\<close> with a \<open>NULL\<close>
  destructor reaches the call of the destructor: it calls through the null pointer
  instead of returning a failure indicator.
\<close>

theorem ht_delete_null_destructor:
  "ht_create w_start 1 True True = w1_new \<and>
   ht_insert w1_new (Some ''a'') (Some 10) (Some 1) True = Some (Inr (True, w1_a)) \<and>
   ht_delete w1_a (Some ''a'') None = Some (Inl Null_Call)"
proof -
  have "ht_create w_start 1 True True = w1_new"
    by (simp add: ht_create_def w_start_def w1_new_def)
  moreover have "ht_insert w1_new (Some ''a'') (Some 10) (Some 1) True = Some (Inr (True, w1_a))"
    by (simp add: run_simps w1_new_def w1_a_def)
  moreover have "ht_delete w1_a (Some ''a'') None = Some (Inl Null_Call)"
    by (simp add: run_simps w1_a_def)
  ultimately show ?thesis by simp
qed

text \<open>
  Claim C5, at a failing input. \<open>ht_create(1)\<close>, a successful \<open>ht_insert\<close> of \<open>a\<close> and a
  successful \<open>ht_delete\<close> of \<open>a\<close> leave a table whose only bucket is empty and whose heap
  has no node, with \<open>size\<close> equal to 1: the deletion has not decremented it.
\<close>

theorem ht_delete_keeps_size:
  "ht_create w_start 1 True True = w1_new \<and>
   ht_insert w1_new (Some ''a'') (Some 10) (Some 1) True = Some (Inr (True, w1_a)) \<and>
   ht_delete w1_a (Some ''a'') log_del = Some (Inr (True, w1_a_deleted)) \<and>
   map_option pp_entries (ht w1_a_deleted) = Some (Some [None]) \<and>
   dom (heap w1_a_deleted) = {} \<and>
   map_option size_ht (ht w1_a_deleted) = Some 1"
proof -
  have "ht_create w_start 1 True True = w1_new"
    by (simp add: ht_create_def w_start_def w1_new_def)
  moreover have "ht_insert w1_new (Some ''a'') (Some 10) (Some 1) True = Some (Inr (True, w1_a))"
    by (simp add: run_simps w1_new_def w1_a_def)
  moreover have "ht_delete w1_a (Some ''a'') log_del = Some (Inr (True, w1_a_deleted))"
    by (simp add: run_simps w1_a_def w1_a_deleted_def log_del_def fun_eq_iff)
  ultimately show ?thesis by (simp add: w1_a_deleted_def)
qed

text \<open>
  Claim C1, at a failing input. Two buckets; \<open>a\<close>, \<open>c\<close> and \<open>e\<close> are inserted into bucket 0
  (chain \<open>e\<close>, \<open>c\<close>, \<open>a\<close>) and \<open>c\<close> is deleted; \<open>a\<close> is never deleted. The deletion frees
  node 2 and leaves \<open>e\<close> pointing to it, so \<open>ht_find_key\<close> of \<open>a\<close> reads freed memory.
  When the allocator hands the freed address to the next insertion (\<open>b\<close>, bucket 1), the
  chain of bucket 0 runs into the node of \<open>b\<close> and ends there: \<open>ht_find_key\<close> of \<open>a\<close>
  returns \<open>NULL\<close>, not the value 10.
\<close>

theorem find_after_delete_of_other_key:
  "ht_create w_start 2 True True = w2_new \<and>
   ht_insert w2_new (Some ''a'') (Some 10) (Some 1) True = Some (Inr (True, w2_a)) \<and>
   ht_insert w2_a (Some ''c'') (Some 30) (Some 2) True = Some (Inr (True, w2_ac)) \<and>
   ht_insert w2_ac (Some ''e'') (Some 50) (Some 3) True = Some (Inr (True, w2_ace)) \<and>
   ht_find_key w2_ace (Some ''a'') = Some (Inr (Some 10, w2_ace)) \<and>
   ht_delete w2_ace (Some ''c'') log_del = Some (Inr (True, w2_ae)) \<and>
   ht_find_key w2_ae (Some ''a'') = Some (Inl Dangling_Read) \<and>
   ht_insert w2_ae (Some ''b'') (Some 20) (Some 2) True = Some (Inr (True, w2_aeb)) \<and>
   ht_find_key w2_aeb (Some ''a'') = Some (Inr (None, w2_aeb))"
proof -
  have two: "replicate 2 x = [x, x]" for x :: "addr option"
    by (simp add: numeral_2_eq_2)
  have "ht_create w_start 2 True True = w2_new"
    by (simp add: ht_create_def two w_start_def w2_new_def)
  moreover have "ht_insert w2_new (Some ''a'') (Some 10) (Some 1) True = Some (Inr (True, w2_a))"
    by (simp add: run_simps w2_new_def w2_a_def)
  moreover have "ht_insert w2_a (Some ''c'') (Some 30) (Some 2) True = Some (Inr (True, w2_ac))"
    by (simp add: run_simps w2_a_def w2_ac_def)
  moreover have "ht_insert w2_ac (Some ''e'') (Some 50) (Some 3) True = Some (Inr (True, w2_ace))"
    by (simp add: run_simps w2_ac_def w2_ace_def)
  moreover have "ht_find_key w2_ace (Some ''a'') = Some (Inr (Some 10, w2_ace))"
    by (simp add: run_simps w2_ace_def)
  moreover have "ht_delete w2_ace (Some ''c'') log_del = Some (Inr (True, w2_ae))"
    by (simp add: run_simps w2_ace_def w2_ae_def log_del_def fun_eq_iff)
  moreover have "ht_find_key w2_ae (Some ''a'') = Some (Inl Dangling_Read)"
    by (simp add: run_simps w2_ae_def)
  moreover have "ht_insert w2_ae (Some ''b'') (Some 20) (Some 2) True = Some (Inr (True, w2_aeb))"
    by (simp add: run_simps w2_ae_def w2_aeb_def)
  moreover have "ht_find_key w2_aeb (Some ''a'') = Some (Inr (None, w2_aeb))"
    by (simp add: run_simps w2_aeb_def)
  ultimately show ?thesis by simp
qed


section \<open>Construction\<close>

lemma ht_create_zero: "ht (ht_create w 0 calloc_table calloc_entries) = None"
  by (simp add: ht_create_def)

lemma ht_create_no_table: "ht (ht_create w cap False calloc_entries) = None"
  by (simp add: ht_create_def)

lemma ht_create_allocated:
  assumes "cap \<noteq> 0"
  shows "ht (ht_create w cap True True) =
           Some \<lparr>pp_entries = Some (replicate (unat cap) None), size_ht = 0,
                 capacity = cap, lock = False\<rparr>"
  using assms by (simp add: ht_create_def)

lemma ht_create_table_ok:
  assumes "cap \<noteq> 0" "uint cap \<le> 2 ^ 63"
  shows "table_ok (ht_create w cap True True)"
  using assms by (simp add: ht_create_def table_ok_def nt_null)

text \<open>When only the bucket array cannot be allocated the handle is returned all the same.\<close>

lemma ht_create_entries_unchecked:
  assumes "cap \<noteq> 0"
  shows "ht (ht_create w cap True False) =
           Some \<lparr>pp_entries = None, size_ht = 0, capacity = cap, lock = False\<rparr>"
  using assms by (simp add: ht_create_def)

text \<open>
  Claim C7, at a failing input. \<open>ht_create(7)\<close> with the table allocated and the
  \<open>calloc\<close> of the bucket array failing returns a handle, not the failure indicator: a
  table of capacity 7 whose bucket array is \<open>NULL\<close>. A lookup on that handle
  dereferences the null array.
\<close>

theorem ht_create_null_bucket_array:
  "ht_create w_start 7 True False = w7_no_array \<and>
   ht w7_no_array \<noteq> None \<and>
   map_option pp_entries (ht w7_no_array) = Some None \<and>
   ht_find_key w7_no_array (Some ''a'') = Some (Inl Null_Deref)"
proof -
  have "ht_create w_start 7 True False = w7_no_array"
    by (simp add: ht_create_def w_start_def w7_no_array_def)
  moreover have "ht_find_key w7_no_array (Some ''a'') = Some (Inl Null_Deref)"
    by (simp add: run_simps w7_no_array_def)
  ultimately show ?thesis by (simp add: w7_no_array_def)
qed


section \<open>Traversal with a predicate\<close>

text \<open>On any table, a predicate that is present is rejected before the traversal.\<close>

lemma ht_compare_present_predicate:
  "ht_compare w (Some f) =
     Some (Inr (None, w\<lparr>stderr := stderr w @ [''Invalid argument passed to ht_match.'']\<rparr>))"
  by (simp add: ht_compare_def split: option.splits)

text \<open>
  Claim C4, at a failing input. With \<open>a\<close> in the table and a predicate that accepts
  every value, \<open>ht_compare\<close> reports an invalid argument and returns \<open>NULL\<close> without
  calling the predicate, where the claim has it return the value 10. With the predicate
  absent it does not fail with invalid argument: it starts the traversal and calls
  through the null pointer at the first entry.
\<close>

theorem ht_compare_rejects_present_predicate:
  "ht_create w_start 1 True True = w1_new \<and>
   ht_insert w1_new (Some ''a'') (Some 10) (Some 1) True = Some (Inr (True, w1_a)) \<and>
   ht_compare w1_a accept_all =
     Some (Inr (None, w1_a\<lparr>stderr := [''Invalid argument passed to ht_match.'']\<rparr>)) \<and>
   ht_compare w1_a None = Some (Inl Null_Call)"
proof -
  have "ht_create w_start 1 True True = w1_new"
    by (simp add: ht_create_def w_start_def w1_new_def)
  moreover have "ht_insert w1_new (Some ''a'') (Some 10) (Some 1) True = Some (Inr (True, w1_a))"
    by (simp add: run_simps w1_new_def w1_a_def)
  moreover have "ht_compare w1_a accept_all =
      Some (Inr (None, w1_a\<lparr>stderr := [''Invalid argument passed to ht_match.'']\<rparr>))"
    by (simp add: run_simps w1_a_def accept_all_def)
  moreover have "ht_compare w1_a None = Some (Inl Null_Call)"
    by (simp add: run_simps w1_a_def)
  ultimately show ?thesis by simp
qed


section \<open>The hash function on particular keys\<close>

text \<open>
  Claim C2, at a failing input. For the key \<open>_\<close> and capacity \<open>2^64 - 1\<close> the accumulator
  is \<open>-2\<close>; as an unsigned 64-bit value it is below the capacity, so the reduction leaves
  it, and \<open>hash_key\<close> returns \<open>-2\<close>: not the sentinel, and not an index in
  \<open>[0, capacity)\<close>.
\<close>

theorem hash_key_negative_index:
  "hash_key (Some ''_'') 18446744073709551615 = - 2"
  by (simp add: run_simps)

text \<open>
  Claim C9 as stated fails: with 7 buckets the empty key hashes to bucket 1, not to the
  sentinel, and \<open>ht_insert\<close> with the empty key succeeds and changes the table.
\<close>

theorem hash_key_empty_not_sentinel:
  "hash_key (Some []) 7 = 1 \<and>
   ht_insert w7_new (Some []) (Some 10) (Some 1) True = Some (Inr (True, w7_empty_key)) \<and>
   ht_find_key w7_empty_key (Some []) = Some (Inr (Some 10, w7_empty_key))"
proof -
  have "hash_key (Some []) 7 = 1"
    by (simp add: run_simps)
  moreover have "ht_insert w7_new (Some []) (Some 10) (Some 1) True = Some (Inr (True, w7_empty_key))"
    by (simp add: run_simps w7_new_def w7_empty_key_def)
  moreover have "ht_find_key w7_empty_key (Some []) = Some (Inr (Some 10, w7_empty_key))"
    by (simp add: run_simps w7_empty_key_def)
  ultimately show ?thesis by simp
qed

text \<open>
  Claim C9, amended. For the empty key the loop runs no step and the accumulator \<open>-1\<close> is
  reduced as the unsigned value \<open>2^64 - 1\<close>: on a well-formed table \<open>hash_key\<close> returns
  \<open>(2^64 - 1) mod capacity\<close>, a bucket index and not the sentinel. The empty key is a
  key like any other: if the table does not hold it and the allocations succeed,
  \<open>ht_insert\<close> returns true, \<open>ht_find_key\<close> then returns the value, and \<open>ht_delete\<close>
  returns true.
\<close>

theorem empty_key_is_ordinary:
  assumes "table_ok w" "ht w = Some t" "ht_find_key w (Some []) = Some (Inr (None, w1))"
  shows "hash_key (Some []) (capacity t) = (2 ^ 64 - 1) mod uint (capacity t) \<and>
         0 \<le> hash_key (Some []) (capacity t) \<and>
         hash_key (Some []) (capacity t) < uint (capacity t) \<and>
         (\<exists>w'. ht_insert w (Some []) (Some d) (Some a) True = Some (Inr (True, w')) \<and>
               ht_find_key w' (Some []) = Some (Inr (Some d, w')) \<and>
               (\<exists>w''. ht_delete w' (Some []) (Some del) = Some (Inr (True, w''))))"
proof -
  have cap: "capacity t \<noteq> 0" "uint (capacity t) \<le> 2 ^ 63"
    using assms(1,2) by (auto simp: table_ok_def split: option.splits)
  from ht_insert_succeeds [OF assms(1,3), of d a] obtain w' where
    ins: "ht_insert w (Some []) (Some d) (Some a) True = Some (Inr (True, w'))" by blast
  have "ht_find_key w' (Some []) = Some (Inr (Some d, w'))"
    using ins by (rule ht_insert_then_find)
  moreover have "\<exists>w''. ht_delete w' (Some []) (Some del) = Some (Inr (True, w''))"
    using ht_delete_after_insert [OF ins assms(2), of a del] by simp
  ultimately show ?thesis
    using ins hash_key_empty [OF cap] hash_key_range [OF cap, of "[]"] by simp
qed

theorem empty_key_is_ordinary_witness:
  "table_ok w7_new \<and>
   ht_find_key w7_new (Some []) = Some (Inr (None, w7_new)) \<and>
   hash_key (Some []) 7 = (2 ^ 64 - 1) mod 7 \<and>
   0 \<le> hash_key (Some []) 7 \<and> hash_key (Some []) 7 < 7 \<and>
   (\<exists>w'. ht_insert w7_new (Some []) (Some 10) (Some 1) True = Some (Inr (True, w')) \<and>
         ht_find_key w' (Some []) = Some (Inr (Some 10, w')) \<and>
         (\<exists>w''. ht_delete w' (Some []) log_del = Some (Inr (True, w''))))"
proof -
  have ok: "table_ok w7_new"
    by (simp add: table_ok_def w7_new_def nt_null)
  have t: "ht w7_new =
      Some \<lparr>pp_entries = Some [None, None, None, None, None, None, None],
            size_ht = 0, capacity = 7, lock = False\<rparr>"
    by (simp add: w7_new_def)
  have f: "ht_find_key w7_new (Some []) = Some (Inr (None, w7_new))"
    by (simp add: run_simps w7_new_def)
  show ?thesis
    using empty_key_is_ordinary [OF ok t f, of 10 1 "\<lambda>v calls. calls @ [v]"] ok f
    by (simp add: log_del_def)
qed

end
